theory Spec2Isabelle
  imports Main
begin

section \<open>The audio session of src/app/page.tsx\<close>

text \<open>
  The page holds one \<open>AudioPlayer\<close> object (fields \<open>audioContext\<close>, \<open>audioSource\<close>,
  \<open>destination\<close>), the React state and refs of \<open>Home\<close>, and the browser objects these
  refer to: buffer source nodes, stream destinations, audio elements, microphone streams,
  media recorders and the object-URL store. Everything runs on one event loop, so an
  \<open>async\<close> function is cut at its \<open>await\<close>s: the part before the first \<open>await\<close> is one
  atomic step that leaves a pending task, and the part after it is a second atomic step,
  taken when the browser settles the awaited promise. Other events may happen in between.
\<close>

subsection \<open>Browser objects\<close>

type_synonym device = string
type_synonym bytes = "nat list"

text \<open>A URL is either a path such as \<open>/sample.mp3\<close> or an object URL minted by
  \<open>URL.createObjectURL\<close>; the latter is identified by the position of its blob in the
  object-URL store.\<close>

datatype audio_url = Resource string | ObjectURL nat

datatype error =
    NotInitialized | ContextError | SinkError | FetchError | DecodeError
  | TypeError | InvalidStateError

text \<open>What a buffer source node is connected to: \<open>audioContext.destination\<close> or a
  \<open>MediaStreamAudioDestinationNode\<close>.\<close>

datatype sink = ContextDestination | StreamDestination nat

record source_node =
  buffer :: audio_url
  connected :: "sink option"
  started :: bool
  stopped :: bool
  finished :: bool
  onended :: bool

record audio_element =
  srcObject :: nat
  sinkId :: "device option"
  playing :: bool

record blob =
  content :: bytes
  mime :: string

datatype recording_state = Inactive | Recording

record media_recorder =
  stream :: nat
  rstate :: recording_state
  stop_queued :: bool
  ondataavailable :: bool
  onstop :: bool

text \<open>The continuation of a suspended \<open>async\<close> call: \<open>init\<close> waiting for \<open>setSinkId\<close>
  (with its local \<open>audio\<close> element and the device), \<open>handlePlayClick\<close> waiting inside
  \<open>playAudio\<close> for fetch and decode, \<open>handleStartRecording\<close> waiting for
  \<open>getUserMedia\<close>.\<close>

datatype task = SinkTask nat device | FetchTask audio_url | MicTask

text \<open>How the browser settles the three awaits of \<open>playAudio\<close> (fetch, arrayBuffer,
  decodeAudioData). No field is read or written between them, so they are one step.\<close>

datatype fetched = FetchFails | DecodeFails | Decoded

subsection \<open>The state\<close>

record app =
  audioContext :: "nat option"
  audioSource :: "nat option"
  destination :: "nat option"
  isPlaying :: bool
  selectedOutput :: device
  recordings :: "audio_url list"
  isRecording :: bool
  audioSourceRef :: "nat option"
  mediaRecorderRef :: "nat option"
  audioChunksRef :: "blob list"
  contexts :: nat
  streamDestinations :: nat
  nodes :: "source_node list"
  audios :: "audio_element list"
  streams :: "bool list"
  recorders :: "media_recorder list"
  objectURLs :: "blob list"
  tasks :: "task option list"
  notified :: "nat list"

text \<open>
  The first three fields are the \<open>AudioPlayer\<close>, the next seven the state and refs of
  \<open>Home\<close>. The rest is the browser: \<open>contexts\<close> counts the \<open>AudioContext\<close> objects
  constructed, \<open>streamDestinations\<close> the destinations created, \<open>streams\<close> holds for every
  microphone stream granted whether it is still live, \<open>objectURLs\<close> is the object-URL
  store, \<open>tasks\<close> the suspended calls (an entry is cleared when its call resumes), and
  \<open>notified\<close> lists the nodes whose \<open>onended\<close> handler has run.
\<close>

definition initial :: app where
  "initial = \<lparr> audioContext = None, audioSource = None, destination = None,
     isPlaying = False, selectedOutput = [], recordings = [], isRecording = False,
     audioSourceRef = None, mediaRecorderRef = None, audioChunksRef = [],
     contexts = 0, streamDestinations = 0, nodes = [], audios = [], streams = [],
     recorders = [], objectURLs = [], tasks = [], notified = [] \<rparr>"

subsection \<open>AudioPlayer\<close>

text \<open>\<open>AudioBufferSourceNode.stop()\<close>: an \<open>InvalidStateError\<close> when the node was never
  started; otherwise the node stops. Stopping twice is allowed.\<close>

definition stop_node :: "nat \<Rightarrow> app \<Rightarrow> error + app" where
  "stop_node n s =
     (if n < length (nodes s) \<and> started (nodes s ! n)
      then Inr (s\<lparr>nodes := (nodes s)[n := (nodes s ! n)\<lparr>stopped := True\<rparr>]\<rparr>)
      else Inl InvalidStateError)"

text \<open>
  \<open>init(outputDeviceId)\<close> up to \<open>await audio.setSinkId(outputDeviceId)\<close>. The flag
  \<open>ctx_ok\<close> says whether the browser can construct an \<open>AudioContext\<close>; it matters only
  when none exists. The empty string is falsy, so \<open>init("")\<close> skips the route. The
  result is the error rethrown by the \<open>catch\<close> (if any) and the state.
\<close>

definition init_begin :: "device \<Rightarrow> bool \<Rightarrow> app \<Rightarrow> error option \<times> app" where
  "init_begin outputDeviceId ctx_ok s =
     (if audioContext s = None \<and> \<not> ctx_ok then (Some ContextError, s)
      else
        let s1 = (if audioContext s = None
                  then s\<lparr>audioContext := Some (contexts s), contexts := Suc (contexts s)\<rparr>
                  else s)
        in if outputDeviceId \<noteq> []
           then
             let audioDestination = streamDestinations s1;
                 audio = length (audios s1)
             in (None,
                 s1\<lparr>streamDestinations := Suc audioDestination,
                    destination := Some audioDestination,
                    audios := audios s1 @
                      [\<lparr>srcObject = audioDestination, sinkId = None, playing = False\<rparr>],
                    tasks := tasks s1 @ [Some (SinkTask audio outputDeviceId)]\<rparr>)
           else (None, s1))"

text \<open>\<open>init\<close> after \<open>setSinkId\<close> settled: \<open>audio.play()\<close> when it was fulfilled, the
  rejection rethrown otherwise.\<close>

definition init_settle :: "nat \<Rightarrow> device \<Rightarrow> bool \<Rightarrow> app \<Rightarrow> error option \<times> app" where
  "init_settle audio outputDeviceId ok s =
     (if ok
      then (None,
            s\<lparr>audios := (audios s)[audio :=
                 (audios s ! audio)\<lparr>sinkId := Some outputDeviceId, playing := True\<rparr>]\<rparr>)
      else (Some SinkError, s))"

text \<open>\<open>playAudio(audioUrl)\<close> up to \<open>await fetch(audioUrl)\<close>: the check of the context,
  then the stop of the source held in \<open>audioSource\<close> (the field itself is kept).\<close>

definition playAudio_begin :: "audio_url \<Rightarrow> app \<Rightarrow> error option \<times> app" where
  "playAudio_begin audioUrl s =
     (if audioContext s = None then (Some NotInitialized, s)
      else
        case (case audioSource s of None \<Rightarrow> Inr s | Some n \<Rightarrow> stop_node n s) of
          Inl e \<Rightarrow> (Some e, s)
        | Inr s1 \<Rightarrow> (None, s1\<lparr>tasks := tasks s1 @ [Some (FetchTask audioUrl)]\<rparr>))"

text \<open>\<open>playAudio\<close> after its awaits: a new source node is created, stored in
  \<open>audioSource\<close>, given the buffer, connected to \<open>this.destination ||
  this.audioContext.destination\<close> and started. The result is the node or the error
  rethrown.\<close>

definition playAudio_settle :: "audio_url \<Rightarrow> fetched \<Rightarrow> app \<Rightarrow> (error + nat) \<times> app" where
  "playAudio_settle audioUrl r s =
     (case r of
        FetchFails \<Rightarrow> (Inl FetchError, s)
      | DecodeFails \<Rightarrow> (if audioContext s = None then (Inl TypeError, s) else (Inl DecodeError, s))
      | Decoded \<Rightarrow>
          if audioContext s = None then (Inl TypeError, s)
          else
            let n = length (nodes s);
                out = (case destination s of
                         Some d \<Rightarrow> StreamDestination d
                       | None \<Rightarrow> ContextDestination)
            in (Inr n,
                s\<lparr>nodes := nodes s @
                     [\<lparr>buffer = audioUrl, connected = Some out, started = True,
                       stopped = False, finished = False, onended = False\<rparr>],
                   audioSource := Some n\<rparr>))"

definition stopAudio :: "app \<Rightarrow> error + app" where
  "stopAudio s =
     (case audioSource s of
        None \<Rightarrow> Inr s
      | Some n \<Rightarrow>
          (case stop_node n s of
             Inl e \<Rightarrow> Inl e
           | Inr s1 \<Rightarrow> Inr (s1\<lparr>audioSource := None\<rparr>)))"

subsection \<open>Home: playback handlers\<close>

text \<open>The effect \<open>initAudio\<close> for a selection: \<open>setSelectedOutput\<close>, then
  \<open>audioPlayer.init(selectedOutput)\<close> with the error caught and logged. The effect
  also runs once when the page is mounted, with the empty selection.\<close>

definition initAudio_begin :: "device \<Rightarrow> bool \<Rightarrow> app \<Rightarrow> app" where
  "initAudio_begin d ctx_ok s = snd (init_begin d ctx_ok (s\<lparr>selectedOutput := d\<rparr>))"

definition initAudio_settle :: "nat \<Rightarrow> device \<Rightarrow> bool \<Rightarrow> app \<Rightarrow> app" where
  "initAudio_settle audio d ok s = snd (init_settle audio d ok s)"

definition handlePlayClick_begin :: "audio_url \<Rightarrow> app \<Rightarrow> app" where
  "handlePlayClick_begin audioUrl s =
     (case playAudio_begin audioUrl s of
        (Some e, s1) \<Rightarrow> s1\<lparr>isPlaying := False\<rparr>
      | (None, s1) \<Rightarrow> s1)"

text \<open>\<open>handlePlayClick\<close> after \<open>await audioPlayer.playAudio(audioUrl)\<close>. Its
  continuation runs in the same turn of the event loop in which \<open>playAudio\<close> returns, so
  the end of \<open>playAudio\<close> and the rest of the handler are one step.\<close>

definition handlePlayClick_settle :: "audio_url \<Rightarrow> fetched \<Rightarrow> app \<Rightarrow> app" where
  "handlePlayClick_settle audioUrl r s =
     (case playAudio_settle audioUrl r s of
        (Inl e, s1) \<Rightarrow> s1\<lparr>isPlaying := False\<rparr>
      | (Inr source, s1) \<Rightarrow>
          s1\<lparr>audioSourceRef := Some source, isPlaying := True,
             nodes := (nodes s1)[source := (nodes s1 ! source)\<lparr>onended := True\<rparr>]\<rparr>)"

text \<open>The handler stored in \<open>source.onended\<close>.\<close>

definition onended_handler :: "app \<Rightarrow> app" where
  "onended_handler s = s\<lparr>isPlaying := False, audioSourceRef := None\<rparr>"

text \<open>The \<open>ended\<close> event of node \<open>n\<close>. The browser dispatches it once to a started node
  when the node stops playing: when its buffer has been played to the end, and also after
  \<open>stop()\<close> was called on it. The field \<open>finished\<close> records that the event was
  dispatched. The event calls \<open>onended\<close>; the source never detaches that handler.\<close>

definition ended_event :: "nat \<Rightarrow> app \<Rightarrow> app option" where
  "ended_event n s =
     (if n < length (nodes s) \<and> started (nodes s ! n) \<and> \<not> finished (nodes s ! n)
      then
        let s1 = s\<lparr>nodes := (nodes s)[n := (nodes s ! n)\<lparr>finished := True\<rparr>]\<rparr>
        in Some (if onended (nodes s ! n)
                 then onended_handler (s1\<lparr>notified := notified s1 @ [n]\<rparr>)
                 else s1)
      else None)"

definition handleStopClick :: "app \<Rightarrow> error + app" where
  "handleStopClick s =
     (case audioSourceRef s of
        None \<Rightarrow> Inr s
      | Some r \<Rightarrow>
          (case stopAudio s of
             Inl e \<Rightarrow> Inl e
           | Inr s1 \<Rightarrow> Inr (s1\<lparr>isPlaying := False, audioSourceRef := None\<rparr>)))"

subsection \<open>Home: recording handlers\<close>

text \<open>\<open>new Blob(parts, {type})\<close>: the bytes of the parts in order, under the given
  type, whatever the types of the parts.\<close>

definition new_Blob :: "blob list \<Rightarrow> string \<Rightarrow> blob" where
  "new_Blob parts type = \<lparr>content = concat (map content parts), mime = type\<rparr>"

text \<open>\<open>handleStartRecording\<close> after \<open>getUserMedia\<close> settled. A rejection is caught and
  logged; nothing is rethrown.\<close>

definition handleStartRecording_settle :: "bool \<Rightarrow> app \<Rightarrow> app" where
  "handleStartRecording_settle granted s =
     (if \<not> granted then s
      else
        let strm = length (streams s);
            r = length (recorders s)
        in s\<lparr>streams := streams s @ [True],
             recorders := recorders s @
               [\<lparr>stream = strm, rstate = Recording, stop_queued = False,
                 ondataavailable = True, onstop = True\<rparr>],
             mediaRecorderRef := Some r,
             audioChunksRef := [],
             isRecording := True\<rparr>)"

text \<open>\<open>MediaRecorder.stop()\<close>: a recording recorder becomes inactive and the tasks that
  deliver the last data and the \<open>stop\<close> event are queued; an inactive recorder is left as
  it is. The tracks of the stream are not touched.\<close>

definition recorder_stop :: "nat \<Rightarrow> app \<Rightarrow> app" where
  "recorder_stop r s =
     (if r < length (recorders s) \<and> rstate (recorders s ! r) = Recording
      then s\<lparr>recorders := (recorders s)[r :=
                (recorders s ! r)\<lparr>rstate := Inactive, stop_queued := True\<rparr>]\<rparr>
      else s)"

definition handleStopRecording :: "app \<Rightarrow> app" where
  "handleStopRecording s =
     (case mediaRecorderRef s of
        None \<Rightarrow> s
      | Some r \<Rightarrow> (recorder_stop r s)\<lparr>isRecording := False\<rparr>)"

definition ondataavailable_handler :: "blob \<Rightarrow> app \<Rightarrow> app" where
  "ondataavailable_handler d s = s\<lparr>audioChunksRef := audioChunksRef s @ [d]\<rparr>"

definition onstop_handler :: "app \<Rightarrow> app" where
  "onstop_handler s =
     (let audioBlob = new_Blob (audioChunksRef s) ''audio/wav'';
          audioUrl = ObjectURL (length (objectURLs s))
      in s\<lparr>objectURLs := objectURLs s @ [audioBlob],
           recordings := recordings s @ [audioUrl]\<rparr>)"

text \<open>The browser delivers data from recorder \<open>r\<close> while it records or while its stop is
  queued, and delivers the \<open>stop\<close> event once per queued stop.\<close>

definition data_available :: "nat \<Rightarrow> blob \<Rightarrow> app \<Rightarrow> app option" where
  "data_available r d s =
     (if r < length (recorders s)
         \<and> (rstate (recorders s ! r) = Recording \<or> stop_queued (recorders s ! r))
      then Some (if ondataavailable (recorders s ! r) then ondataavailable_handler d s else s)
      else None)"

definition recorder_stopped :: "nat \<Rightarrow> app \<Rightarrow> app option" where
  "recorder_stopped r s =
     (if r < length (recorders s) \<and> stop_queued (recorders s ! r)
      then
        let s1 = s\<lparr>recorders := (recorders s)[r := (recorders s ! r)\<lparr>stop_queued := False\<rparr>]\<rparr>
        in Some (if onstop (recorders s ! r) then onstop_handler s1 else s1)
      else None)"

subsection \<open>The event loop\<close>

datatype event =
    InitAudio device bool
  | SinkSettled nat bool
  | PlayClick audio_url
  | FetchSettled nat fetched
  | StopClick
  | StopAudio
  | Ended nat
  | StartRecordingClick
  | MicSettled nat bool
  | StopRecordingClick
  | DataAvailable nat blob
  | RecorderStopped nat

definition suspend :: "task \<Rightarrow> app \<Rightarrow> app" where
  "suspend k s = s\<lparr>tasks := tasks s @ [Some k]\<rparr>"

definition take_task :: "nat \<Rightarrow> app \<Rightarrow> (task \<times> app) option" where
  "take_task t s =
     (if t < length (tasks s)
      then (case tasks s ! t of
              None \<Rightarrow> None
            | Some k \<Rightarrow> Some (k, s\<lparr>tasks := (tasks s)[t := None]\<rparr>))
      else None)"

text \<open>An event that cannot happen in a state gives \<open>None\<close>. An exception that leaves a
  handler uncaught ends that handler and leaves the state as it was.\<close>

fun step :: "app \<Rightarrow> event \<Rightarrow> app option" where
  "step s (InitAudio d ctx_ok) = Some (initAudio_begin d ctx_ok s)"
| "step s (SinkSettled t ok) =
     (case take_task t s of
        Some (SinkTask audio d, s1) \<Rightarrow> Some (initAudio_settle audio d ok s1)
      | _ \<Rightarrow> None)"
| "step s (PlayClick audioUrl) = Some (handlePlayClick_begin audioUrl s)"
| "step s (FetchSettled t r) =
     (case take_task t s of
        Some (FetchTask audioUrl, s1) \<Rightarrow> Some (handlePlayClick_settle audioUrl r s1)
      | _ \<Rightarrow> None)"
| "step s StopClick = (case handleStopClick s of Inl e \<Rightarrow> Some s | Inr s1 \<Rightarrow> Some s1)"
| "step s StopAudio = (case stopAudio s of Inl e \<Rightarrow> Some s | Inr s1 \<Rightarrow> Some s1)"
| "step s (Ended n) = ended_event n s"
| "step s StartRecordingClick = Some (suspend MicTask s)"
| "step s (MicSettled t granted) =
     (case take_task t s of
        Some (MicTask, s1) \<Rightarrow> Some (handleStartRecording_settle granted s1)
      | _ \<Rightarrow> None)"
| "step s StopRecordingClick = Some (handleStopRecording s)"
| "step s (DataAvailable r d) = data_available r d s"
| "step s (RecorderStopped r) = recorder_stopped r s"

fun run :: "app \<Rightarrow> event list \<Rightarrow> app option" where
  "run s [] = Some s"
| "run s (e # es) = (case step s e of None \<Rightarrow> None | Some s1 \<Rightarrow> run s1 es)"

text \<open>The source nodes that sound: started, not stopped, not finished.\<close>

definition sounding :: "app \<Rightarrow> nat list" where
  "sounding s =
     filter (\<lambda>n. started (nodes s ! n) \<and> \<not> stopped (nodes s ! n) \<and> \<not> finished (nodes s ! n))
       [0 ..< length (nodes s)]"

text \<open>The recorders that capture.\<close>

definition capturing :: "app \<Rightarrow> nat list" where
  "capturing s =
     filter (\<lambda>r. rstate (recorders s ! r) = Recording) [0 ..< length (recorders s)]"

text \<open>The player holds no context while none was constructed, and the only context ever
  constructed afterwards.\<close>

definition context_inv :: "app \<Rightarrow> bool" where
  "context_inv s =
     (case audioContext s of None \<Rightarrow> contexts s = 0 | Some c \<Rightarrow> c = 0 \<and> contexts s = 1)"

text \<open>Every blob in the object-URL store is declared \<open>audio/wav\<close>, and every entry of
  the recordings list is an object URL of that store.\<close>

definition clips_inv :: "app \<Rightarrow> bool" where
  "clips_inv s =
     ((\<forall>b \<in> set (objectURLs s). mime b = ''audio/wav'')
    \<and> (\<forall>u \<in> set (recordings s).
          case u of ObjectURL i \<Rightarrow> i < length (objectURLs s) | Resource p \<Rightarrow> False))"

text \<open>Every source node was started when it was created, and \<open>audioSource\<close> refers to
  a node that exists.\<close>

definition nodes_inv :: "app \<Rightarrow> bool" where
  "nodes_inv s =
     ((\<forall>n < length (nodes s). started (nodes s ! n))
    \<and> (case audioSource s of None \<Rightarrow> True | Some n \<Rightarrow> n < length (nodes s)))"

text \<open>\<open>mediaRecorderRef\<close> refers to a recorder that exists, and while \<open>isRecording\<close> is
  set that recorder is recording.\<close>

definition recorders_inv :: "app \<Rightarrow> bool" where
  "recorders_inv s =
     (case mediaRecorderRef s of
        None \<Rightarrow> \<not> isRecording s
      | Some r \<Rightarrow>
          r < length (recorders s)
        \<and> (isRecording s \<longrightarrow> rstate (recorders s ! r) = Recording))"

text \<open>The URLs of the buffers that sound.\<close>

definition sounding_urls :: "app \<Rightarrow> audio_url list" where
  "sounding_urls s = map (\<lambda>n. buffer (nodes s ! n)) (sounding s)"

text \<open>A source is held only once a context exists.\<close>

definition source_inv :: "app \<Rightarrow> bool" where
  "source_inv s = (audioSource s \<noteq> None \<longrightarrow> audioContext s \<noteq> None)"


text \<open>Every source node carries the \<open>onended\<close> handler of \<open>handlePlayClick\<close>.\<close>

definition handlers_inv :: "app \<Rightarrow> bool" where
  "handlers_inv s = (\<forall>n < length (nodes s). onended (nodes s ! n))"

text \<open>The handler has run at most once per node, and only for nodes whose \<open>ended\<close>
  event was dispatched.\<close>

definition notified_inv :: "app \<Rightarrow> bool" where
  "notified_inv s =
     (distinct (notified s)
    \<and> (\<forall>n \<in> set (notified s). n < length (nodes s) \<and> finished (nodes s ! n)))"

section \<open>Properties\<close>

lemmas player_defs = stop_node_def init_begin_def init_settle_def playAudio_begin_def
  playAudio_settle_def stopAudio_def

lemmas home_defs = initAudio_begin_def initAudio_settle_def handlePlayClick_begin_def
  handlePlayClick_settle_def onended_handler_def ended_event_def handleStopClick_def
  handleStartRecording_settle_def recorder_stop_def handleStopRecording_def
  ondataavailable_handler_def onstop_handler_def data_available_def recorder_stopped_def
  suspend_def take_task_def new_Blob_def

lemma run_append:
  "run s (xs @ ys) = (case run s xs of None \<Rightarrow> None | Some s1 \<Rightarrow> run s1 ys)"
  by (induction xs arbitrary: s) (auto split: option.splits)

subsection \<open>One audio context\<close>

lemma step_context_fields:
  assumes "step s e = Some s'"
  shows "(audioContext s' = audioContext s \<and> contexts s' = contexts s)
       \<or> (audioContext s = None \<and> audioContext s' = Some (contexts s)
          \<and> contexts s' = Suc (contexts s))"
  using assms
  by (cases e)
     (auto simp: player_defs home_defs Let_def
           split: if_splits option.splits sum.splits prod.splits task.splits fetched.splits)

lemma step_context_inv: "step s e = Some s' \<Longrightarrow> context_inv s \<Longrightarrow> context_inv s'"
  using step_context_fields [of s e s']
  by (auto simp: context_inv_def split: option.splits)

lemma run_context_inv: "run s es = Some s' \<Longrightarrow> context_inv s \<Longrightarrow> context_inv s'"
  by (induction es arbitrary: s) (auto split: option.splits dest: step_context_inv)

text \<open>
  Claim C9. \<open>init\<close> constructs the audio context only when the player holds none. In
  every state the page can reach, at most one context has been constructed; an \<open>init\<close>
  that finds a context does not fail on account of the context and leaves it, and the
  number of contexts, as they are; an \<open>init\<close> that finds none constructs the first one,
  or rethrows the failure of the construction and changes nothing.
\<close>

theorem init_context_idempotent:
  assumes "run initial es = Some s"
  shows "contexts s \<le> 1
       \<and> (audioContext s \<noteq> None \<longrightarrow>
            fst (init_begin d ok s) = None
          \<and> audioContext (snd (init_begin d ok s)) = audioContext s
          \<and> contexts (snd (init_begin d ok s)) = contexts s)
       \<and> (audioContext s = None \<longrightarrow>
            contexts s = 0
          \<and> audioContext (snd (init_begin d True s)) = Some 0
          \<and> contexts (snd (init_begin d True s)) = 1
          \<and> init_begin d False s = (Some ContextError, s))"
proof -
  have "context_inv initial" by (simp add: context_inv_def initial_def)
  with assms have inv: "context_inv s" by (rule run_context_inv)
  then have "contexts s \<le> 1" by (auto simp: context_inv_def split: option.splits)
  moreover have "audioContext s \<noteq> None \<longrightarrow>
            fst (init_begin d ok s) = None
          \<and> audioContext (snd (init_begin d ok s)) = audioContext s
          \<and> contexts (snd (init_begin d ok s)) = contexts s"
    by (auto simp: init_begin_def Let_def)
  moreover have "audioContext s = None \<longrightarrow>
            contexts s = 0
          \<and> audioContext (snd (init_begin d True s)) = Some 0
          \<and> contexts (snd (init_begin d True s)) = 1
          \<and> init_begin d False s = (Some ContextError, s)"
    using inv by (auto simp: init_begin_def Let_def context_inv_def)
  ultimately show ?thesis by blast
qed

theorem init_context_idempotent_witness:
  "\<exists>s. run initial [InitAudio [] True, InitAudio ''speaker'' True, SinkSettled 0 True] = Some s
     \<and> contexts s = 1 \<and> audioContext s = Some 0
     \<and> audioContext (snd (init_begin ''headset'' True s)) = Some 0
     \<and> contexts (snd (init_begin ''headset'' True s)) = 1"
proof -
  obtain s where
    r: "run initial [InitAudio [] True, InitAudio ''speaker'' True, SinkSettled 0 True] = Some s"
    and c: "audioContext s = Some 0" "contexts s = 1"
    by (simp add: initial_def player_defs home_defs)
  from init_context_idempotent [OF r, of "''headset''" True] c r show ?thesis
    by simp
qed

subsection \<open>Clips\<close>

lemma step_clips:
  assumes "step s e = Some s'"
  shows "(objectURLs s' = objectURLs s \<and> recordings s' = recordings s)
       \<or> (\<exists>parts. objectURLs s' = objectURLs s @ [new_Blob parts ''audio/wav'']
             \<and> recordings s' = recordings s @ [ObjectURL (length (objectURLs s))])"
  using assms
  by (cases e)
     (auto simp: player_defs home_defs Let_def
           split: if_splits option.splits sum.splits prod.splits task.splits fetched.splits)

lemma clips_inv_iff:
  "clips_inv s \<longleftrightarrow>
     (\<forall>b \<in> set (objectURLs s). mime b = ''audio/wav'')
   \<and> (\<forall>u \<in> set (recordings s). \<exists>i. u = ObjectURL i \<and> i < length (objectURLs s))"
proof -
  have "(case u of ObjectURL i \<Rightarrow> i < n | Resource p \<Rightarrow> False)
      \<longleftrightarrow> (\<exists>i. u = ObjectURL i \<and> i < n)" for u and n :: nat
    by (cases u) simp_all
  then show ?thesis by (simp add: clips_inv_def)
qed

lemma step_clips_inv: "step s e = Some s' \<Longrightarrow> clips_inv s \<Longrightarrow> clips_inv s'"
  using step_clips [of s e s']
  by (fastforce simp: clips_inv_iff new_Blob_def)

lemma run_clips_inv: "run s es = Some s' \<Longrightarrow> clips_inv s \<Longrightarrow> clips_inv s'"
  by (induction es arbitrary: s) (auto split: option.splits dest: step_clips_inv)

text \<open>
  Claim C10. Every clip is built by \<open>new Blob(chunks, {type: "audio/wav"})\<close>: in every
  state the page can reach, every blob of the object-URL store carries the type
  \<open>audio/wav\<close>, whatever the types of the fragments the recorder delivered, and every
  entry of the recordings list is an object URL that refers to such a blob; the blob the
  \<open>onstop\<close> handler would add next is of that type as well.
\<close>

theorem clip_declared_wav:
  assumes "run initial es = Some s"
  shows "(\<forall>b \<in> set (objectURLs s). mime b = ''audio/wav'')
       \<and> (\<forall>u \<in> set (recordings s). \<exists>i. u = ObjectURL i \<and> i < length (objectURLs s)
             \<and> mime (objectURLs s ! i) = ''audio/wav'')
       \<and> mime (last (objectURLs (onstop_handler s))) = ''audio/wav''"
proof -
  have "clips_inv initial" by (simp add: clips_inv_iff initial_def)
  with assms have "clips_inv s" by (rule run_clips_inv)
  then show ?thesis
    by (fastforce simp: clips_inv_iff onstop_handler_def new_Blob_def Let_def)
qed

theorem clip_declared_wav_witness:
  "\<exists>s. run initial
          [StartRecordingClick, MicSettled 0 True, StopRecordingClick,
           DataAvailable 0 \<lparr>content = [26, 69, 223, 163], mime = ''audio/webm''\<rparr>,
           RecorderStopped 0] = Some s
      \<and> recordings s = [ObjectURL 0]
      \<and> content (objectURLs s ! 0) = [26, 69, 223, 163]
      \<and> mime (objectURLs s ! 0) = ''audio/wav''"
proof -
  obtain s where
    r: "run initial
          [StartRecordingClick, MicSettled 0 True, StopRecordingClick,
           DataAvailable 0 \<lparr>content = [26, 69, 223, 163], mime = ''audio/webm''\<rparr>,
           RecorderStopped 0] = Some s"
    and c: "recordings s = [ObjectURL 0]" "content (objectURLs s ! 0) = [26, 69, 223, 163]"
    by (simp add: initial_def player_defs home_defs)
  from clip_declared_wav [OF r] c r show ?thesis
    by auto
qed


lemma run_data:
  assumes "r < length (recorders s)"
    and "rstate (recorders s ! r) = Recording \<or> stop_queued (recorders s ! r)"
    and "ondataavailable (recorders s ! r)"
  shows "run s (map (DataAvailable r) ds) = Some (s\<lparr>audioChunksRef := audioChunksRef s @ ds\<rparr>)"
  using assms
proof (induction ds arbitrary: s)
  case Nil
  then show ?case by simp
next
  case (Cons d ds)
  let ?s1 = "s\<lparr>audioChunksRef := audioChunksRef s @ [d]\<rparr>"
  have "step s (DataAvailable r d) = Some ?s1"
    using Cons.prems by (simp add: data_available_def ondataavailable_handler_def)
  moreover have "run ?s1 (map (DataAvailable r) ds)
      = Some (?s1\<lparr>audioChunksRef := audioChunksRef ?s1 @ ds\<rparr>)"
    using Cons.prems by (intro Cons.IH) simp_all
  ultimately show ?case by simp
qed

lemma run_recordings_append:
  "run s es = Some s' \<Longrightarrow> \<exists>us. recordings s' = recordings s @ us"
proof (induction es arbitrary: s)
  case Nil
  then show ?case by simp
next
  case (Cons e es)
  then obtain s1 where s1: "step s e = Some s1" and r: "run s1 es = Some s'"
    by (auto split: option.splits)
  from step_clips [OF s1] obtain vs where "recordings s1 = recordings s @ vs" by auto
  moreover from Cons.IH [OF r] obtain ws where "recordings s' = recordings s1 @ ws" by auto
  ultimately show ?case by simp
qed

text \<open>
  Claim C6. Let the recorder held in \<open>mediaRecorderRef\<close> be recording, with the fragments
  \<open>audioChunksRef s\<close> accumulated so far. Then \<open>handleStopRecording\<close>, the fragments
  \<open>ds\<close> the browser still delivers for the stopped recorder, and its \<open>stop\<close> event
  produce exactly one new blob, whose bytes are the bytes of all these fragments in
  arrival order; one object URL is minted for it and appended to the recordings list. The
  recorder is inactive afterwards, its \<open>stop\<close> event cannot fire a second time, a second
  \<open>handleStopRecording\<close> changes nothing, and whatever happens later only appends to the
  recordings list.
\<close>

theorem stop_recording_one_clip:
  assumes "mediaRecorderRef s = Some r" and "r < length (recorders s)"
    and "rstate (recorders s ! r) = Recording"
    and "ondataavailable (recorders s ! r)" and "onstop (recorders s ! r)"
  shows "\<exists>s'. run s (StopRecordingClick # map (DataAvailable r) ds @ [RecorderStopped r]) = Some s'
       \<and> objectURLs s' = objectURLs s @
           [\<lparr>content = concat (map content (audioChunksRef s @ ds)), mime = ''audio/wav''\<rparr>]
       \<and> recordings s' = recordings s @ [ObjectURL (length (objectURLs s))]
       \<and> rstate (recorders s' ! r) = Inactive
       \<and> step s' (RecorderStopped r) = None
       \<and> handleStopRecording s' = s'
       \<and> (\<forall>es s2. run s' es = Some s2 \<longrightarrow> (\<exists>us. recordings s2 = recordings s' @ us))"
proof -
  let ?s1 = "handleStopRecording s"
  have s1: "?s1 = s\<lparr>recorders := (recorders s)[r :=
                (recorders s ! r)\<lparr>rstate := Inactive, stop_queued := True\<rparr>],
              isRecording := False\<rparr>"
    using assms by (simp add: handleStopRecording_def recorder_stop_def)
  let ?s2 = "?s1\<lparr>audioChunksRef := audioChunksRef ?s1 @ ds\<rparr>"
  have d: "run ?s1 (map (DataAvailable r) ds) = Some ?s2"
    using assms by (intro run_data) (simp_all add: s1)
  obtain s' where s': "recorder_stopped r ?s2 = Some s'"
    and o: "objectURLs s' = objectURLs s @
           [\<lparr>content = concat (map content (audioChunksRef s @ ds)), mime = ''audio/wav''\<rparr>]"
    and u: "recordings s' = recordings s @ [ObjectURL (length (objectURLs s))]"
    and i: "rstate (recorders s' ! r) = Inactive"
    and n: "step s' (RecorderStopped r) = None"
    and h: "handleStopRecording s' = s'"
    using assms
    by (simp add: s1 recorder_stopped_def onstop_handler_def new_Blob_def Let_def
          handleStopRecording_def recorder_stop_def)
  have "run s (StopRecordingClick # map (DataAvailable r) ds @ [RecorderStopped r]) = Some s'"
    using d s' by (simp add: run_append)
  with o u i n h run_recordings_append show ?thesis by blast
qed

theorem stop_recording_one_clip_witness:
  "\<exists>s s'. run initial
          [StartRecordingClick, MicSettled 0 True,
           DataAvailable 0 \<lparr>content = [1, 2], mime = ''audio/webm''\<rparr>,
           DataAvailable 0 \<lparr>content = [3], mime = ''audio/webm''\<rparr>] = Some s
      \<and> run s [StopRecordingClick, DataAvailable 0 \<lparr>content = [4, 5], mime = ''audio/webm''\<rparr>,
                RecorderStopped 0] = Some s'
      \<and> objectURLs s' = [\<lparr>content = [1, 2, 3, 4, 5], mime = ''audio/wav''\<rparr>]
      \<and> recordings s' = [ObjectURL 0]"
proof -
  obtain s where
    r: "run initial
          [StartRecordingClick, MicSettled 0 True,
           DataAvailable 0 \<lparr>content = [1, 2], mime = ''audio/webm''\<rparr>,
           DataAvailable 0 \<lparr>content = [3], mime = ''audio/webm''\<rparr>] = Some s"
    and c: "mediaRecorderRef s = Some 0" "0 < length (recorders s)"
      "rstate (recorders s ! 0) = Recording" "ondataavailable (recorders s ! 0)"
      "onstop (recorders s ! 0)"
    and v: "objectURLs s = []" "recordings s = []"
      "audioChunksRef s = [\<lparr>content = [1, 2], mime = ''audio/webm''\<rparr>,
                           \<lparr>content = [3], mime = ''audio/webm''\<rparr>]"
    by (simp add: initial_def player_defs home_defs)
  from stop_recording_one_clip [OF c, of "[\<lparr>content = [4, 5], mime = ''audio/webm''\<rparr>]"] r v
  show ?thesis by auto
qed

subsection \<open>Stopping\<close>

lemma step_nodes_inv: "step s e = Some s' \<Longrightarrow> nodes_inv s \<Longrightarrow> nodes_inv s'"
  by (cases e)
     (auto simp: nodes_inv_def player_defs home_defs Let_def nth_list_update nth_append
           split: if_splits option.splits sum.splits prod.splits task.splits fetched.splits)

lemma run_nodes_inv: "run s es = Some s' \<Longrightarrow> nodes_inv s \<Longrightarrow> nodes_inv s'"
  by (induction es arbitrary: s) (auto split: option.splits dest: step_nodes_inv)

lemma step_recorders_inv: "step s e = Some s' \<Longrightarrow> recorders_inv s \<Longrightarrow> recorders_inv s'"
  by (cases e)
     (auto simp: recorders_inv_def player_defs home_defs Let_def nth_list_update nth_append
           split: if_splits option.splits sum.splits prod.splits task.splits fetched.splits)

lemma run_recorders_inv: "run s es = Some s' \<Longrightarrow> recorders_inv s \<Longrightarrow> recorders_inv s'"
  by (induction es arbitrary: s) (auto split: option.splits dest: step_recorders_inv)

lemma sounding_empty:
  "sounding s = [] \<longleftrightarrow>
     (\<forall>n < length (nodes s). \<not> (started (nodes s ! n) \<and> \<not> stopped (nodes s ! n)
         \<and> \<not> finished (nodes s ! n)))"
  by (auto simp: sounding_def filter_empty_conv)

lemma capturing_empty:
  "capturing s = [] \<longleftrightarrow> (\<forall>r < length (recorders s). rstate (recorders s ! r) \<noteq> Recording)"
  by (auto simp: capturing_def filter_empty_conv)

lemma stopAudio_reachable:
  assumes "nodes_inv s"
  shows "\<exists>s'. stopAudio s = Inr s' \<and> notified s' = notified s
          \<and> (sounding s = [] \<longrightarrow> sounding s' = [])"
  using assms
  by (auto simp: nodes_inv_def stopAudio_def stop_node_def sounding_empty nth_list_update
           split: option.splits)

lemma handleStopClick_reachable:
  assumes "nodes_inv s"
  shows "\<exists>s'. handleStopClick s = Inr s' \<and> notified s' = notified s
          \<and> (sounding s = [] \<longrightarrow> sounding s' = [])"
  using assms
  by (auto simp: nodes_inv_def handleStopClick_def stopAudio_def stop_node_def sounding_empty
        nth_list_update split: option.splits)

lemma handleStopRecording_idle:
  assumes "recorders_inv s" and "capturing s = []"
  shows "handleStopRecording s = s"
proof (cases "mediaRecorderRef s")
  case None
  then show ?thesis by (simp add: handleStopRecording_def)
next
  case (Some r)
  with assms have "r < length (recorders s)" "rstate (recorders s ! r) \<noteq> Recording"
    by (auto simp: recorders_inv_def capturing_empty)
  moreover from this assms Some have "\<not> isRecording s"
    by (auto simp: recorders_inv_def)
  ultimately show ?thesis using Some
    by (simp add: handleStopRecording_def recorder_stop_def)
qed

text \<open>
  Claim C8. Stopping when idle does nothing and throws nothing. In any state, \<open>stopAudio\<close>
  with no source held, \<open>handleStopClick\<close> with no source in its ref and
  \<open>handleStopRecording\<close> with no recorder in its ref return the state as it is. In every
  state the page can reach, \<open>stopAudio\<close> and \<open>handleStopClick\<close> return without an
  exception and notify nobody, and when no node sounds none sounds afterwards (at most a
  reference to a node that is already silent is cleared); when no recorder captures,
  \<open>handleStopRecording\<close> returns the state as it is.
\<close>

theorem stop_when_idle_noop:
  assumes "run initial es = Some s"
  shows "(audioSource t = None \<longrightarrow> stopAudio t = Inr t)
       \<and> (audioSourceRef t = None \<longrightarrow> handleStopClick t = Inr t)
       \<and> (mediaRecorderRef t = None \<longrightarrow> handleStopRecording t = t)
       \<and> (\<exists>s'. stopAudio s = Inr s' \<and> notified s' = notified s
              \<and> (sounding s = [] \<longrightarrow> sounding s' = []))
       \<and> (\<exists>s'. handleStopClick s = Inr s' \<and> notified s' = notified s
              \<and> (sounding s = [] \<longrightarrow> sounding s' = []))
       \<and> (capturing s = [] \<longrightarrow> handleStopRecording s = s)"
proof -
  have "nodes_inv initial" "recorders_inv initial"
    by (simp_all add: nodes_inv_def recorders_inv_def initial_def)
  with assms have n: "nodes_inv s" and r: "recorders_inv s"
    by (auto intro: run_nodes_inv run_recorders_inv)
  have "audioSource t = None \<longrightarrow> stopAudio t = Inr t"
    by (simp add: stopAudio_def)
  moreover have "audioSourceRef t = None \<longrightarrow> handleStopClick t = Inr t"
    by (simp add: handleStopClick_def)
  moreover have "mediaRecorderRef t = None \<longrightarrow> handleStopRecording t = t"
    by (simp add: handleStopRecording_def)
  ultimately show ?thesis
    using stopAudio_reachable [OF n] handleStopClick_reachable [OF n]
      handleStopRecording_idle [OF r]
    by blast
qed

theorem stop_when_idle_noop_witness:
  "\<exists>s. run initial
          [InitAudio [] True, PlayClick (Resource ''/sample.mp3''), FetchSettled 0 Decoded,
           Ended 0, StartRecordingClick, MicSettled 1 True, StopRecordingClick,
           RecorderStopped 0] = Some s
      \<and> sounding s = [] \<and> capturing s = [] \<and> audioSourceRef s = None
      \<and> mediaRecorderRef s = Some 0 \<and> audioSource s = Some 0
      \<and> handleStopClick s = Inr s \<and> handleStopRecording s = s
      \<and> stopAudio initial = Inr initial
      \<and> handleStopRecording initial = initial"
proof -
  obtain s where
    r: "run initial
          [InitAudio [] True, PlayClick (Resource ''/sample.mp3''), FetchSettled 0 Decoded,
           Ended 0, StartRecordingClick, MicSettled 1 True, StopRecordingClick,
           RecorderStopped 0] = Some s"
    and c: "sounding s = []" "capturing s = []" "audioSourceRef s = None"
      "mediaRecorderRef s = Some 0" "audioSource s = Some 0"
    by (simp add: initial_def player_defs home_defs sounding_def capturing_def)
  have i: "audioSource initial = None" "audioSourceRef initial = None"
    "mediaRecorderRef initial = None"
    by (simp_all add: initial_def)
  from stop_when_idle_noop [OF r, of s] stop_when_idle_noop [OF r, of initial] c r i
  show ?thesis by simp
qed

subsection \<open>Playback: stop and preemption\<close>

lemma sounding_iff:
  "n \<in> set (sounding s) \<longleftrightarrow>
     n < length (nodes s) \<and> started (nodes s ! n) \<and> \<not> stopped (nodes s ! n)
       \<and> \<not> finished (nodes s ! n)"
  by (auto simp: sounding_def)

lemma step_stopped:
  assumes "step s e = Some s'" and "a < length (nodes s)" and "stopped (nodes s ! a)"
  shows "a < length (nodes s') \<and> stopped (nodes s' ! a)
       \<and> onended (nodes s' ! a) = onended (nodes s ! a)"
  using assms
  by (cases e)
     (auto simp: player_defs home_defs Let_def nth_list_update nth_append
           split: if_splits option.splits sum.splits prod.splits task.splits fetched.splits)

lemma run_stopped:
  assumes "run s es = Some s'" and "a < length (nodes s)" and "stopped (nodes s ! a)"
  shows "a < length (nodes s') \<and> stopped (nodes s' ! a)
       \<and> onended (nodes s' ! a) = onended (nodes s ! a)"
  using assms
proof (induction es arbitrary: s)
  case Nil
  then show ?case by simp
next
  case (Cons e es)
  then obtain s1 where s1: "step s e = Some s1" and r: "run s1 es = Some s'"
    by (auto split: option.splits)
  from step_stopped [OF s1 Cons.prems(2,3)]
  have a: "a < length (nodes s1)" "stopped (nodes s1 ! a)"
    and o: "onended (nodes s1 ! a) = onended (nodes s ! a)"
    by auto
  from Cons.IH [OF r a] o show ?case by auto
qed

lemma step_source_inv: "step s e = Some s' \<Longrightarrow> source_inv s \<Longrightarrow> source_inv s'"
  by (cases e)
     (auto simp: source_inv_def player_defs home_defs Let_def
           split: if_splits option.splits sum.splits prod.splits task.splits fetched.splits)

lemma run_source_inv: "run s es = Some s' \<Longrightarrow> source_inv s \<Longrightarrow> source_inv s'"
  by (induction es arbitrary: s) (auto split: option.splits dest: step_source_inv)

lemma sounding_nodes_append:
  assumes "nodes s' = nodes s @ [nd]"
  shows "sounding s' = sounding s @
           (if started nd \<and> \<not> stopped nd \<and> \<not> finished nd then [length (nodes s)] else [])"
proof -
  have "filter (\<lambda>n. started ((nodes s @ [nd]) ! n) \<and> \<not> stopped ((nodes s @ [nd]) ! n)
            \<and> \<not> finished ((nodes s @ [nd]) ! n)) [0 ..< length (nodes s)]
      = sounding s"
    unfolding sounding_def by (rule filter_cong) (simp_all add: nth_append)
  then show ?thesis
    by (simp add: sounding_def [of s'] assms)
qed

lemma play_settle_decoded:
  assumes "audioContext s \<noteq> None" and "t < length (tasks s)"
    and "tasks s ! t = Some (FetchTask u)"
  shows "\<exists>s2. step s (FetchSettled t Decoded) = Some s2
       \<and> audioSource s2 = Some (length (nodes s))
       \<and> audioSourceRef s2 = Some (length (nodes s))
       \<and> sounding s2 = sounding s @ [length (nodes s)]
       \<and> buffer (nodes s2 ! length (nodes s)) = u
       \<and> onended (nodes s2 ! length (nodes s))"
proof -
  let ?nd = "\<lparr>buffer = u,
      connected = Some (case destination s of Some d \<Rightarrow> StreamDestination d
                        | None \<Rightarrow> ContextDestination),
      started = True, stopped = False, finished = False, onended = True\<rparr>"
  obtain s2 where s2: "step s (FetchSettled t Decoded) = Some s2"
    and n: "nodes s2 = nodes s @ [?nd]"
    and a: "audioSource s2 = Some (length (nodes s))"
      "audioSourceRef s2 = Some (length (nodes s))"
    using assms
    by (auto simp: take_task_def handlePlayClick_settle_def playAudio_settle_def Let_def)
  from sounding_nodes_append [OF n] have "sounding s2 = sounding s @ [length (nodes s)]"
    by simp
  with s2 n a show ?thesis by simp
qed

lemma stopAudio_held:
  assumes "nodes_inv s" and "audioSource s = Some a"
  shows "\<exists>s1. stopAudio s = Inr s1 \<and> audioSource s1 = None \<and> tasks s1 = tasks s
       \<and> audioContext s1 = audioContext s \<and> length (nodes s1) = length (nodes s)
       \<and> a < length (nodes s1) \<and> stopped (nodes s1 ! a)
       \<and> onended (nodes s1 ! a) = onended (nodes s ! a)
       \<and> notified s1 = notified s"
  using assms
  by (auto simp: nodes_inv_def stopAudio_def stop_node_def)

lemma handlePlayClick_begin_held:
  assumes "nodes_inv s" and "audioSource s = Some a" and "audioContext s \<noteq> None"
  shows "tasks (handlePlayClick_begin b s) = tasks s @ [Some (FetchTask b)]
       \<and> audioContext (handlePlayClick_begin b s) = audioContext s
       \<and> nodes (handlePlayClick_begin b s) = (nodes s)[a := (nodes s ! a)\<lparr>stopped := True\<rparr>]
       \<and> a < length (nodes s)
       \<and> notified (handlePlayClick_begin b s) = notified s"
  using assms
  by (auto simp: nodes_inv_def handlePlayClick_begin_def playAudio_begin_def stop_node_def)

lemma reachable_invs:
  assumes "run initial es = Some s"
  shows "nodes_inv s" and "source_inv s"
proof -
  have "nodes_inv initial" "source_inv initial"
    by (simp_all add: nodes_inv_def source_inv_def initial_def)
  with assms show "nodes_inv s" and "source_inv s"
    by (auto intro: run_nodes_inv run_source_inv)
qed

text \<open>
  A stop while the first play is still fetching: \<open>stopAudio\<close> finds no source, and
  \<open>handleStopClick\<close> finds its ref empty; the play then resumes and its source sounds.
\<close>

theorem stop_mid_fetch_counterexample:
  "map_option sounding_urls
     (run initial [InitAudio [] True, PlayClick (Resource ''/sample.mp3''), StopAudio,
                   FetchSettled 0 Decoded]) = Some [Resource ''/sample.mp3'']
 \<and> map_option audioSource
     (run initial [InitAudio [] True, PlayClick (Resource ''/sample.mp3''), StopAudio,
                   FetchSettled 0 Decoded]) = Some (Some 0)
 \<and> map_option sounding_urls
     (run initial [InitAudio [] True, PlayClick (Resource ''/sample.mp3''), StopClick,
                   FetchSettled 0 Decoded]) = Some [Resource ''/sample.mp3'']"
  by (simp add: initial_def player_defs home_defs sounding_def sounding_urls_def)

text \<open>
  Claim C1, as amended. A \<open>stopAudio\<close> issued while a \<open>playAudio\<close> is in its fetch and
  decode phase does not cancel that play: it stops and clears only the source held at that
  moment and leaves the suspended play pending. When the fetch and the decode then succeed,
  \<open>playAudio\<close> creates the new source, starts it and stores it in \<open>audioSource\<close>: the
  new handle sounds after the stop.
\<close>

theorem stop_mid_fetch_play_still_starts:
  assumes "run initial es = Some s" and "audioContext s \<noteq> None"
    and "t < length (tasks s)" and "tasks s ! t = Some (FetchTask u)"
  shows "\<exists>s1 s2. stopAudio s = Inr s1 \<and> audioSource s1 = None \<and> tasks s1 = tasks s
       \<and> (\<forall>a. audioSource s = Some a \<longrightarrow> stopped (nodes s1 ! a))
       \<and> step s1 (FetchSettled t Decoded) = Some s2
       \<and> audioSource s2 = Some (length (nodes s))
       \<and> length (nodes s) \<in> set (sounding s2)
       \<and> buffer (nodes s2 ! length (nodes s)) = u"
proof (cases "audioSource s")
  case None
  then have s1: "stopAudio s = Inr s" by (simp add: stopAudio_def)
  from play_settle_decoded [OF assms(2-4)] obtain s2 where
    "step s (FetchSettled t Decoded) = Some s2" "audioSource s2 = Some (length (nodes s))"
    "sounding s2 = sounding s @ [length (nodes s)]" "buffer (nodes s2 ! length (nodes s)) = u"
    by blast
  with s1 None show ?thesis by auto
next
  case (Some a)
  from stopAudio_held [OF reachable_invs(1) [OF assms(1)] Some] obtain s1 where
    s1: "stopAudio s = Inr s1" "audioSource s1 = None" "tasks s1 = tasks s"
      "audioContext s1 = audioContext s" "length (nodes s1) = length (nodes s)"
      "stopped (nodes s1 ! a)"
    by blast
  from assms s1 have "audioContext s1 \<noteq> None" "t < length (tasks s1)"
    "tasks s1 ! t = Some (FetchTask u)"
    by simp_all
  from play_settle_decoded [OF this] obtain s2 where
    "step s1 (FetchSettled t Decoded) = Some s2" "audioSource s2 = Some (length (nodes s1))"
    "sounding s2 = sounding s1 @ [length (nodes s1)]"
    "buffer (nodes s2 ! length (nodes s1)) = u"
    by blast
  with s1 Some show ?thesis by auto
qed

theorem stop_mid_fetch_play_still_starts_witness:
  "\<exists>s s1 s2. run initial [InitAudio [] True, PlayClick (Resource ''/sample.mp3'')] = Some s
     \<and> stopAudio s = Inr s1 \<and> audioSource s1 = None
     \<and> step s1 (FetchSettled 0 Decoded) = Some s2
     \<and> audioSource s2 = Some 0 \<and> 0 \<in> set (sounding s2)
     \<and> buffer (nodes s2 ! 0) = Resource ''/sample.mp3''"
proof -
  obtain s where
    r: "run initial [InitAudio [] True, PlayClick (Resource ''/sample.mp3'')] = Some s"
    and c: "audioContext s \<noteq> None" "0 < length (tasks s)"
      "tasks s ! 0 = Some (FetchTask (Resource ''/sample.mp3''))"
    and n: "length (nodes s) = 0"
    by (simp add: initial_def player_defs home_defs)
  from stop_mid_fetch_play_still_starts [OF r c] r n show ?thesis
    by auto
qed

lemma step_handlers_inv: "step s e = Some s' \<Longrightarrow> handlers_inv s \<Longrightarrow> handlers_inv s'"
  by (cases e)
     (auto simp: handlers_inv_def player_defs home_defs Let_def nth_list_update nth_append
           split: if_splits option.splits sum.splits prod.splits task.splits fetched.splits)

lemma run_handlers_inv: "run s es = Some s' \<Longrightarrow> handlers_inv s \<Longrightarrow> handlers_inv s'"
  by (induction es arbitrary: s) (auto split: option.splits dest: step_handlers_inv)

lemma step_notified_inv: "step s e = Some s' \<Longrightarrow> notified_inv s \<Longrightarrow> notified_inv s'"
  by (cases e)
     (auto simp: notified_inv_def player_defs home_defs Let_def nth_list_update nth_append
                 less_Suc_eq
           split: if_splits option.splits sum.splits prod.splits task.splits fetched.splits)

lemma run_notified_inv: "run s es = Some s' \<Longrightarrow> notified_inv s \<Longrightarrow> notified_inv s'"
  by (induction es arbitrary: s) (auto split: option.splits dest: step_notified_inv)

lemma reachable_handlers:
  assumes "run initial es = Some s"
  shows "handlers_inv s" and "notified_inv s"
proof -
  have "handlers_inv initial" "notified_inv initial"
    by (simp_all add: handlers_inv_def notified_inv_def initial_def)
  with assms show "handlers_inv s" and "notified_inv s"
    by (auto intro: run_handlers_inv run_notified_inv)
qed

lemma ended_after_stop:
  assumes "a < length (nodes s)" and "started (nodes s ! a)" and "\<not> finished (nodes s ! a)"
    and "onended (nodes s ! a)"
  shows "\<exists>s2. step s (Ended a) = Some s2 \<and> notified s2 = notified s @ [a]
          \<and> \<not> isPlaying s2 \<and> audioSourceRef s2 = None"
  using assms by (simp add: ended_event_def onended_handler_def Let_def)

lemma reachable_step:
  assumes "run initial es = Some s" and "step s e = Some s1" and "run s1 es1 = Some s2"
  shows "run initial (es @ e # es1) = Some s2"
  using assms by (simp add: run_append)

lemma stopAudio_held_node:
  assumes "nodes_inv s" and "audioSource s = Some a"
  shows "\<exists>s1. stopAudio s = Inr s1 \<and> a < length (nodes s1)
       \<and> started (nodes s1 ! a) \<and> stopped (nodes s1 ! a)
       \<and> finished (nodes s1 ! a) = finished (nodes s ! a)
       \<and> onended (nodes s1 ! a) = onended (nodes s ! a)
       \<and> notified s1 = notified s"
  using assms
  by (auto simp: nodes_inv_def stopAudio_def stop_node_def)

text \<open>
  A source is stopped by the stop button, or preempted by a second play, and its \<open>ended\<close>
  event then calls the handler; and two plays clicked one after the other while the first
  is still fetching: the second finds no source to stop, both sources are started and
  both sound, and the first one ends by itself and calls its handler.
\<close>

theorem stopped_handle_notified_counterexample:
  "map_option notified
     (run initial [InitAudio [] True, PlayClick (Resource ''/a.mp3''),
                   FetchSettled 0 Decoded, StopClick, Ended 0]) = Some [0]
 \<and> map_option notified
     (run initial [InitAudio [] True, PlayClick (Resource ''/a.mp3''),
                   FetchSettled 0 Decoded, PlayClick (Resource ''/b.mp3''), Ended 0,
                   FetchSettled 1 Decoded]) = Some [0]
 \<and> map_option sounding_urls
     (run initial [InitAudio [] True, PlayClick (Resource ''/a.mp3''),
                   PlayClick (Resource ''/b.mp3''), FetchSettled 0 Decoded,
                   FetchSettled 1 Decoded]) = Some [Resource ''/a.mp3'', Resource ''/b.mp3'']
 \<and> map_option notified
     (run initial [InitAudio [] True, PlayClick (Resource ''/a.mp3''),
                   PlayClick (Resource ''/b.mp3''), FetchSettled 0 Decoded,
                   FetchSettled 1 Decoded, Ended 0]) = Some [0]"
  by (simp add: initial_def player_defs home_defs sounding_def sounding_urls_def)

text \<open>
  Claim C2, as amended. Let the player hold the source \<open>a\<close> in a state the page can
  reach. \<open>stopAudio\<close> stops \<open>a\<close>, and so does the start of a following play of \<open>b\<close>
  before it fetches. In whatever happens afterwards \<open>a\<close> never sounds again. Its
  \<open>onended\<close> handler stays attached: unless the \<open>ended\<close> event of \<open>a\<close> was dispatched
  before the stop, it can still be dispatched after it and then calls the handler for
  \<open>a\<close>; no handler is ever called twice for one source. If no source but \<open>a\<close> sounds
  when \<open>b\<close> is clicked and the fetch and decode of \<open>b\<close> succeed at once, then at that
  moment exactly the source of \<open>b\<close> sounds.
\<close>

theorem stopped_held_handle_silent_handler_kept:
  assumes "run initial es = Some s" and "audioSource s = Some a"
  shows "(\<exists>s1. stopAudio s = Inr s1
           \<and> onended (nodes s1 ! a)
           \<and> (\<forall>es1 s2. run s1 es1 = Some s2 \<longrightarrow>
                 a \<notin> set (sounding s2) \<and> onended (nodes s2 ! a) \<and> distinct (notified s2))
           \<and> (\<not> finished (nodes s ! a) \<longrightarrow>
                 (\<exists>s2. step s1 (Ended a) = Some s2 \<and> notified s2 = notified s @ [a])))
       \<and> onended (nodes (handlePlayClick_begin b s) ! a)
       \<and> (\<forall>es1 s2. run (handlePlayClick_begin b s) es1 = Some s2 \<longrightarrow>
             a \<notin> set (sounding s2) \<and> onended (nodes s2 ! a) \<and> distinct (notified s2))
       \<and> (\<not> finished (nodes s ! a) \<longrightarrow>
             (\<exists>s2. step (handlePlayClick_begin b s) (Ended a) = Some s2
                \<and> notified s2 = notified s @ [a]))
       \<and> (set (sounding s) \<subseteq> {a} \<longrightarrow>
            (\<exists>s2. run s [PlayClick b, FetchSettled (length (tasks s)) Decoded] = Some s2
               \<and> sounding s2 = [length (nodes s)] \<and> sounding_urls s2 = [b]))"
proof -
  note inv = reachable_invs [OF assms(1)]
  from inv(2) assms(2) have ctx: "audioContext s \<noteq> None"
    by (simp add: source_inv_def)
  from inv(1) assms(2) have al: "a < length (nodes s)" and st: "started (nodes s ! a)"
    by (simp_all add: nodes_inv_def)
  from reachable_handlers(1) [OF assms(1)] al have on: "onended (nodes s ! a)"
    by (simp add: handlers_inv_def)
  from stopAudio_held_node [OF inv(1) assms(2)] obtain s1 where
    s1: "stopAudio s = Inr s1" "a < length (nodes s1)" "stopped (nodes s1 ! a)"
      "started (nodes s1 ! a)" "finished (nodes s1 ! a) = finished (nodes s ! a)"
      "onended (nodes s1 ! a) = onended (nodes s ! a)" "notified s1 = notified s"
    by blast
  from s1(1) have step1: "step s StopAudio = Some s1" by simp
  have A: "\<forall>es1 s2. run s1 es1 = Some s2 \<longrightarrow>
             a \<notin> set (sounding s2) \<and> onended (nodes s2 ! a) \<and> distinct (notified s2)"
  proof (intro allI impI)
    fix es1 s2 assume r: "run s1 es1 = Some s2"
    from run_stopped [OF r s1(2,3)] s1(6) on
    have "a \<notin> set (sounding s2)" "onended (nodes s2 ! a)"
      by (simp_all add: sounding_iff)
    moreover from reachable_handlers(2) [OF reachable_step [OF assms(1) step1 r]]
    have "distinct (notified s2)" by (simp add: notified_inv_def)
    ultimately show "a \<notin> set (sounding s2) \<and> onended (nodes s2 ! a) \<and> distinct (notified s2)"
      by simp
  qed
  have A': "\<exists>s2. step s1 (Ended a) = Some s2 \<and> notified s2 = notified s @ [a]"
    if "\<not> finished (nodes s ! a)"
    using ended_after_stop [of a s1] s1 on that by auto
  let ?p = "handlePlayClick_begin b s"
  note p = handlePlayClick_begin_held [OF inv(1) assms(2) ctx, of b]
  from p st have pa: "a < length (nodes ?p)" "stopped (nodes ?p ! a)"
    and po: "onended (nodes ?p ! a) = onended (nodes s ! a)"
    and ps: "started (nodes ?p ! a)"
    and pf: "finished (nodes ?p ! a) = finished (nodes s ! a)"
    by simp_all
  have stepp: "step s (PlayClick b) = Some ?p" by simp
  have B: "\<forall>es1 s2. run ?p es1 = Some s2 \<longrightarrow>
             a \<notin> set (sounding s2) \<and> onended (nodes s2 ! a) \<and> distinct (notified s2)"
  proof (intro allI impI)
    fix es1 s2 assume r: "run ?p es1 = Some s2"
    from run_stopped [OF r pa] po on
    have "a \<notin> set (sounding s2)" "onended (nodes s2 ! a)"
      by (simp_all add: sounding_iff)
    moreover from reachable_handlers(2) [OF reachable_step [OF assms(1) stepp r]]
    have "distinct (notified s2)" by (simp add: notified_inv_def)
    ultimately show "a \<notin> set (sounding s2) \<and> onended (nodes s2 ! a) \<and> distinct (notified s2)"
      by simp
  qed
  have B': "\<exists>s2. step ?p (Ended a) = Some s2 \<and> notified s2 = notified s @ [a]"
    if "\<not> finished (nodes s ! a)"
    using ended_after_stop [of a ?p] pa ps pf po on p that by auto
  have C: "\<exists>s2. run s [PlayClick b, FetchSettled (length (tasks s)) Decoded] = Some s2
               \<and> sounding s2 = [length (nodes s)] \<and> sounding_urls s2 = [b]"
    if sub: "set (sounding s) \<subseteq> {a}"
  proof -
    have quiet: "sounding ?p = []"
      unfolding sounding_empty
    proof (intro allI impI)
      fix n assume "n < length (nodes ?p)"
      show "\<not> (started (nodes ?p ! n) \<and> \<not> stopped (nodes ?p ! n) \<and> \<not> finished (nodes ?p ! n))"
      proof (cases "n = a")
        case True
        with pa show ?thesis by simp
      next
        case False
        with sub have "n \<notin> set (sounding s)" by auto
        with False \<open>n < length (nodes ?p)\<close> p show ?thesis
          by (simp add: sounding_iff)
      qed
    qed
    from p ctx have "audioContext ?p \<noteq> None" "length (tasks s) < length (tasks ?p)"
      "tasks ?p ! length (tasks s) = Some (FetchTask b)"
      by simp_all
    from play_settle_decoded [OF this] obtain s2 where
      s2: "step ?p (FetchSettled (length (tasks s)) Decoded) = Some s2"
        "sounding s2 = sounding ?p @ [length (nodes ?p)]"
        "buffer (nodes s2 ! length (nodes ?p)) = b"
      by blast
    moreover from p have "length (nodes ?p) = length (nodes s)" by simp
    ultimately show ?thesis using quiet
      by (simp add: sounding_urls_def)
  qed
  from s1(6) on have "onended (nodes s1 ! a)" by simp
  moreover from po on have "onended (nodes ?p ! a)" by simp
  ultimately show ?thesis using s1(1) A A' B B' C by blast
qed

theorem stopped_held_handle_silent_handler_kept_witness:
  "\<exists>s s1 s2 s3. run initial [InitAudio [] True, PlayClick (Resource ''/a.mp3''),
                        FetchSettled 0 Decoded] = Some s
     \<and> audioSource s = Some 0 \<and> sounding s = [0] \<and> notified s = []
     \<and> stopAudio s = Inr s1 \<and> onended (nodes s1 ! 0)
     \<and> step s1 (Ended 0) = Some s2 \<and> notified s2 = [0]
     \<and> run s [PlayClick (Resource ''/b.mp3''), FetchSettled 1 Decoded] = Some s3
     \<and> sounding s3 = [1] \<and> sounding_urls s3 = [Resource ''/b.mp3'']"
proof -
  obtain s where
    r: "run initial [InitAudio [] True, PlayClick (Resource ''/a.mp3''),
                     FetchSettled 0 Decoded] = Some s"
    and c: "audioSource s = Some 0"
    and v: "sounding s = [0]" "length (tasks s) = 1" "length (nodes s) = 1"
      "\<not> finished (nodes s ! 0)" "notified s = []"
    by (simp add: initial_def player_defs home_defs sounding_def)
  note T = stopped_held_handle_silent_handler_kept [OF r c, of "Resource ''/b.mp3''"]
  from T v(4) obtain s1 s2 where
    a: "stopAudio s = Inr s1" "onended (nodes s1 ! 0)"
      "step s1 (Ended 0) = Some s2" "notified s2 = notified s @ [0]"
    by blast
  from v(1) have "set (sounding s) \<subseteq> {0}" by simp
  with T obtain s3 where
    "run s [PlayClick (Resource ''/b.mp3''), FetchSettled (length (tasks s)) Decoded] = Some s3"
    "sounding s3 = [length (nodes s)]" "sounding_urls s3 = [Resource ''/b.mp3'']"
    by blast
  then have b: "run s [PlayClick (Resource ''/b.mp3''), FetchSettled 1 Decoded] = Some s3"
    "sounding s3 = [1]" "sounding_urls s3 = [Resource ''/b.mp3'']"
    unfolding v(2,3) by simp_all
  from a(4) v(5) have "notified s2 = [0]" by simp
  with r c v(1,5) a(1-3) b show ?thesis by blast
qed

subsection \<open>Recording: start and stop\<close>








lemma capturing_recorders_append:
  assumes "recorders s' = recorders s @ [rc]"
  shows "capturing s' = capturing s @ (if rstate rc = Recording then [length (recorders s)] else [])"
proof -
  have "filter (\<lambda>r. rstate ((recorders s @ [rc]) ! r) = Recording) [0 ..< length (recorders s)]
      = capturing s"
    unfolding capturing_def by (rule filter_cong) (simp_all add: nth_append)
  then show ?thesis
    by (simp add: capturing_def [of s'] assms)
qed

text \<open>
  A second start while the first recorder captures: both capture, and the ref holds the
  second.
\<close>

theorem second_start_counterexample:
  "map_option capturing
     (run initial [InitAudio [] True, StartRecordingClick, MicSettled 0 True]) = Some [0]
 \<and> map_option capturing
     (run initial [InitAudio [] True, StartRecordingClick, MicSettled 0 True,
                   StartRecordingClick, MicSettled 1 True]) = Some [0, 1]
 \<and> map_option mediaRecorderRef
     (run initial [InitAudio [] True, StartRecordingClick, MicSettled 0 True,
                   StartRecordingClick, MicSettled 1 True]) = Some (Some 1)"
  by (simp add: initial_def player_defs home_defs capturing_def)

text \<open>
  Claim C5, as amended. \<open>handleStartRecording\<close> has no guard against a recording in
  progress. A start is always accepted and waits for the microphone. When the microphone
  is granted, a new recorder is created and started next to those that capture already,
  it becomes the recorder of \<open>mediaRecorderRef\<close>, and the shared fragment buffer is reset
  to empty. Only when the microphone is denied are the recorders, the ref, the fragment
  buffer and the recording flag left as they were.
\<close>

theorem start_recording_unguarded:
  "step s StartRecordingClick = Some (s\<lparr>tasks := tasks s @ [Some MicTask]\<rparr>)
 \<and> (step s (MicSettled t True) = Some s' \<longrightarrow>
       capturing s' = capturing s @ [length (recorders s)]
     \<and> mediaRecorderRef s' = Some (length (recorders s))
     \<and> audioChunksRef s' = [] \<and> isRecording s')
 \<and> (step s (MicSettled t False) = Some s' \<longrightarrow>
       recorders s' = recorders s \<and> capturing s' = capturing s
     \<and> mediaRecorderRef s' = mediaRecorderRef s
     \<and> audioChunksRef s' = audioChunksRef s \<and> isRecording s' = isRecording s)"
proof -
  have "step s StartRecordingClick = Some (s\<lparr>tasks := tasks s @ [Some MicTask]\<rparr>)"
    by (simp add: suspend_def)
  moreover have "capturing s' = capturing s @ [length (recorders s)]
     \<and> mediaRecorderRef s' = Some (length (recorders s))
     \<and> audioChunksRef s' = [] \<and> isRecording s'"
    if g: "step s (MicSettled t True) = Some s'"
  proof -
    let ?rc = "\<lparr>stream = length (streams s), rstate = Recording, stop_queued = False,
                ondataavailable = True, onstop = True\<rparr>"
    from g have f: "recorders s' = recorders s @ [?rc]"
      "mediaRecorderRef s' = Some (length (recorders s))" "audioChunksRef s' = []"
      "isRecording s'"
      by (auto simp: take_task_def handleStartRecording_settle_def Let_def
               split: if_splits option.splits task.splits)
    from capturing_recorders_append [OF f(1)] f show ?thesis by simp
  qed
  moreover have "recorders s' = recorders s \<and> capturing s' = capturing s
     \<and> mediaRecorderRef s' = mediaRecorderRef s
     \<and> audioChunksRef s' = audioChunksRef s \<and> isRecording s' = isRecording s"
    if d: "step s (MicSettled t False) = Some s'"
    using d
    by (auto simp: take_task_def handleStartRecording_settle_def capturing_def
             split: if_splits option.splits task.splits)
  ultimately show ?thesis by blast
qed

theorem start_recording_unguarded_witness:
  "\<exists>s s1 s2 s3. run initial [StartRecordingClick, MicSettled 0 True,
                     DataAvailable 0 \<lparr>content = [7], mime = ''audio/webm''\<rparr>] = Some s
     \<and> capturing s = [0] \<and> audioChunksRef s = [\<lparr>content = [7], mime = ''audio/webm''\<rparr>]
     \<and> step s StartRecordingClick = Some s1
     \<and> step s1 (MicSettled 1 True) = Some s2
     \<and> capturing s2 = [0, 1] \<and> mediaRecorderRef s2 = Some 1 \<and> audioChunksRef s2 = []
     \<and> step s1 (MicSettled 1 False) = Some s3
     \<and> capturing s3 = [0] \<and> mediaRecorderRef s3 = Some 0
     \<and> audioChunksRef s3 = [\<lparr>content = [7], mime = ''audio/webm''\<rparr>]"
proof -
  obtain s where
    r: "run initial [StartRecordingClick, MicSettled 0 True,
                     DataAvailable 0 \<lparr>content = [7], mime = ''audio/webm''\<rparr>] = Some s"
    and c: "capturing s = [0]" "audioChunksRef s = [\<lparr>content = [7], mime = ''audio/webm''\<rparr>]"
      "length (recorders s) = 1" "mediaRecorderRef s = Some 0" "tasks s = [None]"
    by (simp add: initial_def player_defs home_defs capturing_def)
  let ?s1 = "s\<lparr>tasks := tasks s @ [Some MicTask]\<rparr>"
  obtain s2 where s2: "step ?s1 (MicSettled 1 True) = Some s2"
    using c by (simp add: take_task_def)
  obtain s3 where s3: "step ?s1 (MicSettled 1 False) = Some s3"
    using c by (simp add: take_task_def)
  have k: "capturing ?s1 = capturing s" by (simp add: capturing_def)
  from start_recording_unguarded [of s 1 s2]
  have "step s StartRecordingClick = Some ?s1" by simp
  moreover from start_recording_unguarded [of ?s1 1 s2] s2 c k
  have "capturing s2 = [0, 1]" "mediaRecorderRef s2 = Some 1" "audioChunksRef s2 = []"
    by simp_all
  moreover from start_recording_unguarded [of ?s1 1 s3] s3 c k
  have "capturing s3 = [0]" "mediaRecorderRef s3 = Some 0"
    "audioChunksRef s3 = [\<lparr>content = [7], mime = ''audio/webm''\<rparr>]"
    by simp_all
  ultimately show ?thesis using r c s2 s3 by blast
qed

subsection \<open>Output routing\<close>

text \<open>
  Claim C4, at the failing input. Device \<open>D\<close> is selected and bound, then the default
  output is selected (\<open>init("")\<close>), then a clip is played: the new source is connected to
  the stream destination made for \<open>D\<close>, whose audio element still plays into \<open>D\<close>, and
  not to the destination of the context. Selecting another device \<open>E\<close> instead does
  replace the route.
\<close>

theorem default_after_device_keeps_route:
  "map_option nodes
     (run initial [InitAudio [] True, InitAudio ''D'' True, SinkSettled 0 True, InitAudio [] True,
                   PlayClick (Resource ''/sample.mp3''), FetchSettled 1 Decoded])
   = Some [\<lparr>buffer = Resource ''/sample.mp3'', connected = Some (StreamDestination 0),
            started = True, stopped = False, finished = False, onended = True\<rparr>]
 \<and> map_option audios
     (run initial [InitAudio [] True, InitAudio ''D'' True, SinkSettled 0 True, InitAudio [] True,
                   PlayClick (Resource ''/sample.mp3''), FetchSettled 1 Decoded])
   = Some [\<lparr>srcObject = 0, sinkId = Some ''D'', playing = True\<rparr>]
 \<and> map_option selectedOutput
     (run initial [InitAudio [] True, InitAudio ''D'' True, SinkSettled 0 True, InitAudio [] True,
                   PlayClick (Resource ''/sample.mp3''), FetchSettled 1 Decoded])
   = Some []
 \<and> map_option nodes
     (run initial [InitAudio [] True,
                   PlayClick (Resource ''/sample.mp3''), FetchSettled 0 Decoded])
   = Some [\<lparr>buffer = Resource ''/sample.mp3'', connected = Some ContextDestination,
            started = True, stopped = False, finished = False, onended = True\<rparr>]
 \<and> map_option nodes
     (run initial [InitAudio [] True, InitAudio ''D'' True, SinkSettled 0 True,
                   InitAudio ''E'' True,
                   SinkSettled 1 True,
                   PlayClick (Resource ''/sample.mp3''), FetchSettled 2 Decoded])
   = Some [\<lparr>buffer = Resource ''/sample.mp3'', connected = Some (StreamDestination 1),
            started = True, stopped = False, finished = False, onended = True\<rparr>]"
  by (simp add: initial_def player_defs home_defs)

subsection \<open>Failures\<close>

lemma handlePlayClick_begin_ok:
  assumes "nodes_inv s" and "audioContext s \<noteq> None"
  shows "tasks (handlePlayClick_begin b s) = tasks s @ [Some (FetchTask b)]
       \<and> audioContext (handlePlayClick_begin b s) = audioContext s
       \<and> length (nodes (handlePlayClick_begin b s)) = length (nodes s)
       \<and> audioSource (handlePlayClick_begin b s) = audioSource s
       \<and> (\<forall>p. audioSource s = Some p \<longrightarrow> stopped (nodes (handlePlayClick_begin b s) ! p))"
  using assms
  by (auto simp: nodes_inv_def handlePlayClick_begin_def playAudio_begin_def stop_node_def
           split: option.splits)

lemma playAudio_begin_ok:
  assumes "nodes_inv s" and "audioContext s \<noteq> None"
  shows "fst (playAudio_begin b s) = None
       \<and> audioSource (snd (playAudio_begin b s)) = audioSource s
       \<and> (\<forall>p. audioSource s = Some p \<longrightarrow> stopped (nodes (snd (playAudio_begin b s)) ! p))"
  using assms
  by (auto simp: nodes_inv_def playAudio_begin_def stop_node_def split: option.splits)

lemma settle_failed:
  "step s (FetchSettled t FetchFails) = Some s' \<Longrightarrow>
     s' = s\<lparr>tasks := (tasks s)[t := None], isPlaying := False\<rparr>"
  "step s (SinkSettled t False) = Some s' \<Longrightarrow> s' = s\<lparr>tasks := (tasks s)[t := None]\<rparr>"
  "step s (MicSettled t False) = Some s' \<Longrightarrow> s' = s\<lparr>tasks := (tasks s)[t := None]\<rparr>"
  by (auto simp: take_task_def handlePlayClick_settle_def playAudio_settle_def
        initAudio_settle_def init_settle_def handleStartRecording_settle_def
      split: if_splits option.splits task.splits)

lemma retry_play:
  assumes "nodes_inv s" and "audioContext s \<noteq> None"
  shows "\<exists>s2. run s [PlayClick u, FetchSettled (length (tasks s)) FetchFails,
                     PlayClick u, FetchSettled (Suc (length (tasks s))) Decoded] = Some s2
          \<and> audioSource s2 = Some (length (nodes s))
          \<and> length (nodes s) \<in> set (sounding s2)"
proof -
  let ?t = "length (tasks s)"
  let ?p = "handlePlayClick_begin u s"
  note p = handlePlayClick_begin_ok [OF assms, of u]
  have np: "nodes_inv ?p"
    using step_nodes_inv [of s "PlayClick u" ?p] assms(1) by simp
  let ?q = "?p\<lparr>tasks := (tasks ?p)[?t := None], isPlaying := False\<rparr>"
  have q: "step ?p (FetchSettled ?t FetchFails) = Some ?q"
    using p by (simp add: take_task_def handlePlayClick_settle_def playAudio_settle_def)
  have nq: "nodes_inv ?q" using np by (auto simp: nodes_inv_def split: option.splits)
  have cq: "audioContext ?q \<noteq> None" using p assms(2) by simp
  let ?r = "handlePlayClick_begin u ?q"
  note r = handlePlayClick_begin_ok [OF nq cq, of u]
  have tq: "length (tasks ?q) = Suc ?t" using p by simp
  from r tq cq have "audioContext ?r \<noteq> None" "Suc ?t < length (tasks ?r)"
    "tasks ?r ! Suc ?t = Some (FetchTask u)"
    by (simp_all add: nth_append)
  from play_settle_decoded [OF this] obtain s2 where
    s2: "step ?r (FetchSettled (Suc ?t) Decoded) = Some s2"
      "audioSource s2 = Some (length (nodes ?r))"
      "sounding s2 = sounding ?r @ [length (nodes ?r)]"
    by blast
  moreover have "length (nodes ?r) = length (nodes s)" using r p by simp
  ultimately show ?thesis using q by simp
qed

text \<open>
  A play fails at its fetch while an earlier source sounds: the failed call has stopped
  that source.
\<close>

theorem failed_play_stops_prior_counterexample:
  "map_option sounding
     (run initial [InitAudio [] True, PlayClick (Resource ''/a.mp3''),
                   FetchSettled 0 Decoded]) = Some [0]
 \<and> map_option sounding
     (run initial [InitAudio [] True, PlayClick (Resource ''/a.mp3''),
                   FetchSettled 0 Decoded,
                   PlayClick (Resource ''/missing.mp3''), FetchSettled 1 FetchFails]) = Some []"
  by (simp add: initial_def player_defs home_defs sounding_def)

text \<open>
  Claim C3, as amended. \<open>init\<close> and \<open>playAudio\<close> rethrow every failure to their caller;
  a denied microphone is caught inside \<open>handleStartRecording\<close>. At the failure itself
  nothing changes: \<open>playAudio\<close> without a context, a failed fetch or decode, a failed
  construction of the context, a rejected \<open>setSinkId\<close> and a denied microphone return the
  state they found, so no source is created, started or stored and no recorder is created; the
  callers in \<open>Home\<close> then only clear the pending call and, for a play, the playing flag.
  What \<open>playAudio\<close> did before its fetch stays: the source held at the start of the call
  has been stopped and remains the source held. After a failed play the session is usable:
  a further play whose fetch and decode succeed starts its source.
\<close>

theorem failure_rethrown_nothing_installed:
  assumes "run initial es = Some s"
  shows "(audioContext s = None \<longrightarrow> playAudio_begin u s = (Some NotInitialized, s))
       \<and> playAudio_settle u FetchFails s = (Inl FetchError, s)
       \<and> (audioContext s \<noteq> None \<longrightarrow> playAudio_settle u DecodeFails s = (Inl DecodeError, s))
       \<and> (audioContext s = None \<longrightarrow> init_begin d False s = (Some ContextError, s))
       \<and> init_settle a d False s = (Some SinkError, s)
       \<and> handleStartRecording_settle False s = s
       \<and> (\<forall>t s'. step s (FetchSettled t FetchFails) = Some s' \<longrightarrow>
             s' = s\<lparr>tasks := (tasks s)[t := None], isPlaying := False\<rparr>)
       \<and> (\<forall>t s'. step s (SinkSettled t False) = Some s' \<longrightarrow>
             s' = s\<lparr>tasks := (tasks s)[t := None]\<rparr>)
       \<and> (\<forall>t s'. step s (MicSettled t False) = Some s' \<longrightarrow>
             s' = s\<lparr>tasks := (tasks s)[t := None]\<rparr>)
       \<and> (audioContext s \<noteq> None \<longrightarrow>
             fst (playAudio_begin u s) = None
           \<and> audioSource (snd (playAudio_begin u s)) = audioSource s
           \<and> (\<forall>p. audioSource s = Some p \<longrightarrow> stopped (nodes (snd (playAudio_begin u s)) ! p))
           \<and> (\<exists>s2. run s [PlayClick u, FetchSettled (length (tasks s)) FetchFails,
                          PlayClick u, FetchSettled (Suc (length (tasks s))) Decoded] = Some s2
                 \<and> audioSource s2 = Some (length (nodes s))
                 \<and> length (nodes s) \<in> set (sounding s2)))"
proof -
  note inv = reachable_invs(1) [OF assms]
  have "audioContext s = None \<longrightarrow> playAudio_begin u s = (Some NotInitialized, s)"
    by (simp add: playAudio_begin_def)
  moreover have "playAudio_settle u FetchFails s = (Inl FetchError, s)"
    by (simp add: playAudio_settle_def)
  moreover have "audioContext s \<noteq> None \<longrightarrow>
      playAudio_settle u DecodeFails s = (Inl DecodeError, s)"
    by (simp add: playAudio_settle_def)
  moreover have "audioContext s = None \<longrightarrow> init_begin d False s = (Some ContextError, s)"
    by (simp add: init_begin_def)
  moreover have "init_settle a d False s = (Some SinkError, s)"
    by (simp add: init_settle_def)
  moreover have "handleStartRecording_settle False s = s"
    by (simp add: handleStartRecording_settle_def)
  moreover note settle_failed [of s] playAudio_begin_ok [OF inv, of u] retry_play [OF inv, of u]
  ultimately show ?thesis by blast
qed

theorem failure_rethrown_nothing_installed_witness:
  "\<exists>s s2. run initial [InitAudio [] True, PlayClick (Resource ''/a.mp3''),
                       FetchSettled 0 Decoded] = Some s
     \<and> audioSource s = Some 0 \<and> sounding s = [0]
     \<and> playAudio_settle (Resource ''/b.mp3'') FetchFails s = (Inl FetchError, s)
     \<and> playAudio_settle (Resource ''/b.mp3'') DecodeFails s = (Inl DecodeError, s)
     \<and> init_settle 0 ''D'' False s = (Some SinkError, s)
     \<and> fst (playAudio_begin (Resource ''/b.mp3'') s) = None
     \<and> stopped (nodes (snd (playAudio_begin (Resource ''/b.mp3'') s)) ! 0)
     \<and> run s [PlayClick (Resource ''/b.mp3''), FetchSettled 1 FetchFails,
              PlayClick (Resource ''/b.mp3''), FetchSettled 2 Decoded] = Some s2
     \<and> audioSource s2 = Some 1 \<and> 1 \<in> set (sounding s2)
     \<and> playAudio_begin (Resource ''/b.mp3'') initial = (Some NotInitialized, initial)
     \<and> init_begin ''D'' False initial = (Some ContextError, initial)"
proof -
  obtain s where
    r: "run initial [InitAudio [] True, PlayClick (Resource ''/a.mp3''),
                     FetchSettled 0 Decoded] = Some s"
    and c: "audioSource s = Some 0" "sounding s = [0]" "audioContext s \<noteq> None"
      "length (tasks s) = 1" "length (nodes s) = 1"
    by (simp add: initial_def player_defs home_defs sounding_def)
  have i: "run initial [] = Some initial" "audioContext initial = None"
    by (simp_all add: initial_def)
  note T = failure_rethrown_nothing_installed [OF r, of "Resource ''/b.mp3''" "''D''" 0]
  note I = failure_rethrown_nothing_installed [OF i(1), of "Resource ''/b.mp3''" "''D''" 0]
  from T have a: "playAudio_settle (Resource ''/b.mp3'') FetchFails s = (Inl FetchError, s)"
    "init_settle 0 ''D'' False s = (Some SinkError, s)"
    by blast+
  from T c(3) have b: "playAudio_settle (Resource ''/b.mp3'') DecodeFails s = (Inl DecodeError, s)"
    "fst (playAudio_begin (Resource ''/b.mp3'') s) = None"
    "\<forall>p. audioSource s = Some p \<longrightarrow>
       stopped (nodes (snd (playAudio_begin (Resource ''/b.mp3'') s)) ! p)"
    by blast+
  from T c(3) obtain s2 where
    "run s [PlayClick (Resource ''/b.mp3''), FetchSettled (length (tasks s)) FetchFails,
            PlayClick (Resource ''/b.mp3''), FetchSettled (Suc (length (tasks s))) Decoded]
       = Some s2"
    "audioSource s2 = Some (length (nodes s))" "length (nodes s) \<in> set (sounding s2)"
    by blast
  then have d: "run s [PlayClick (Resource ''/b.mp3''), FetchSettled 1 FetchFails,
              PlayClick (Resource ''/b.mp3''), FetchSettled 2 Decoded] = Some s2"
    "audioSource s2 = Some 1" "1 \<in> set (sounding s2)"
    unfolding c(4,5) by (simp_all only: Suc_1)
  from I i(2) have e: "playAudio_begin (Resource ''/b.mp3'') initial = (Some NotInitialized, initial)"
    "init_begin ''D'' False initial = (Some ContextError, initial)"
    by blast+
  from b(3) c(1) have "stopped (nodes (snd (playAudio_begin (Resource ''/b.mp3'') s)) ! 0)"
    by blast
  with r c(1,2) a b(1,2) d e show ?thesis by blast
qed

end
